theory Spec2Isabelle
  imports Main "HOL-Library.Word" "HOL-Library.Multiset" "HOL-Library.AList"
begin

section \<open>The Registry of registry.go\<close>

subsection \<open>Go maps and their iteration order\<close>

text \<open>
  A Go map is an association list with distinct keys: \<open>m[k] = v\<close> is
  \<^const>\<open>AList.update\<close>, \<open>delete(m, k)\<close> is \<^const>\<open>AList.delete\<close>, a lookup is
  \<^const>\<open>map_of\<close>. Go leaves the order of \<open>for ... range m\<close> unspecified, so a range
  loop takes the order from a seed: \<open>shuffle seed m\<close> picks the entry at index
  \<open>i mod length m\<close> for the head \<open>i\<close> of the seed, removes it, and goes on with the rest
  of the seed; a seed that runs out leaves the remaining entries in their stored order.
  Every order of the entries is the shuffle of some seed (\<open>shuffle_any_order\<close> below).
\<close>

type_synonym ('k, 'v) gomap = "('k \<times> 'v) list"

fun shuffle :: "nat list \<Rightarrow> 'a list \<Rightarrow> 'a list" where
  "shuffle seed [] = []"
| "shuffle [] xs = xs"
| "shuffle (i # seed) xs =
     (let j = i mod length xs in xs ! j # shuffle seed (take j xs @ drop (Suc j) xs))"

subsection \<open>Data\<close>

type_synonym int64 = "64 word"

text \<open>
  A \<open>func(*Trace)\<close> acts on the world outside the registry: it is a function from the
  trace to a transformer of that world, whose type \<open>'w\<close> is left open. \<open>'t\<close> is the
  type of \<open>*Trace\<close>.
\<close>

type_synonym ('t, 'w) callback = "'t \<Rightarrow> 'w \<Rightarrow> 'w"

record ('t, 'w) traceWatcherRef =
  watcher :: "('t, 'w) callback"

text \<open>Pointers to Scope and Span objects are addresses.\<close>

type_synonym scope_ptr = nat
type_synonym span_ptr = nat

text \<open>
  The struct Registry. A \<open>sync.Mutex\<close> is a flag, \<open>True\<close> while it is held. The
  atomically loaded pointer \<open>traceWatcher\<close> is \<open>None\<close> when it is nil.
\<close>

record ('t, 'w) Registry =
  traceWatcher :: "('t, 'w) traceWatcherRef option"
  watcherMtx :: bool
  watcherCounter :: int64
  traceWatchers :: "(int64, ('t, 'w) callback) gomap"
  scopeMtx :: bool
  scopes :: "(string, scope_ptr) gomap"
  spanMtx :: bool
  spans :: "(span_ptr, unit) gomap"
  orphanMtx :: bool
  orphans :: "(span_ptr, unit) gomap"

definition NewRegistry :: "('t, 'w) Registry" where
  "NewRegistry =
     \<lparr>traceWatcher = None, watcherMtx = False, watcherCounter = 0, traceWatchers = [],
      scopeMtx = False, scopes = [], spanMtx = False, spans = [],
      orphanMtx = False, orphans = []\<rparr>"

subsection \<open>Trace watchers\<close>

text \<open>
  \<open>observeTrace\<close> loads the pointer and, when it is not nil, calls the function it holds.
  It reads no other field of the registry and touches no mutex.
\<close>

definition observeTrace :: "('t, 'w) Registry \<Rightarrow> 't \<Rightarrow> 'w \<Rightarrow> 'w" where
  "observeTrace r t w =
     (case traceWatcher r of
        None \<Rightarrow> w
      | Some ref \<Rightarrow> watcher ref t w)"

text \<open>
  \<open>updateWatcher\<close> collects the callbacks in the order the range loop yields them and
  publishes nil, the lone callback, or a closure that calls them one after the other.
\<close>

definition updateWatcher :: "nat list \<Rightarrow> ('t, 'w) Registry \<Rightarrow> ('t, 'w) Registry" where
  "updateWatcher seed r =
     (let cbs = map snd (shuffle seed (traceWatchers r)) in
      if length cbs = 0 then r\<lparr>traceWatcher := None\<rparr>
      else if length cbs = 1 then r\<lparr>traceWatcher := Some \<lparr>watcher = cbs ! 0\<rparr>\<rparr>
      else r\<lparr>traceWatcher := Some \<lparr>watcher = (\<lambda>t. fold (\<lambda>cb. cb t) cbs)\<rparr>\<rparr>)"

text \<open>
  \<open>ObserveTraces\<close> returns the new registry and the id its cancel closure captures;
  \<open>cancel cbId\<close> is that closure. Both lock \<open>watcherMtx\<close> first: on a held mutex
  they do not return (\<open>None\<close>). The deferred unlock runs last.
\<close>

definition ObserveTraces ::
  "('t, 'w) callback \<Rightarrow> nat list \<Rightarrow> ('t, 'w) Registry \<Rightarrow> (int64 \<times> ('t, 'w) Registry) option" where
  "ObserveTraces cb seed r =
     (if watcherMtx r then None
      else
        let r1 = r\<lparr>watcherMtx := True\<rparr>;
            cbId = watcherCounter r1;
            r2 = r1\<lparr>watcherCounter := watcherCounter r1 + 1\<rparr>;
            r3 = r2\<lparr>traceWatchers := AList.update cbId cb (traceWatchers r2)\<rparr>;
            r4 = updateWatcher seed r3
        in Some (cbId, r4\<lparr>watcherMtx := False\<rparr>))"

definition cancel :: "int64 \<Rightarrow> nat list \<Rightarrow> ('t, 'w) Registry \<Rightarrow> ('t, 'w) Registry option" where
  "cancel cbId seed r =
     (if watcherMtx r then None
      else
        let r1 = r\<lparr>watcherMtx := True\<rparr>;
            r2 = r1\<lparr>traceWatchers := AList.delete cbId (traceWatchers r1)\<rparr>;
            r3 = updateWatcher seed r2
        in Some (r3\<lparr>watcherMtx := False\<rparr>))"

subsection \<open>Scopes\<close>

text \<open>
  Modelled from the spec: \<open>newScope\<close> and the struct Scope are not in registry.go. A
  Scope has a name (section 3 of the specification); \<open>newScope\<close> allocates a new Scope
  object of that name. The heap of Scope objects is a list, the address of an object is
  its index, and an allocation appends.
\<close>

record Scope =
  name :: string

type_synonym scope_heap = "Scope list"

definition newScope :: "string \<Rightarrow> scope_heap \<Rightarrow> scope_ptr \<times> scope_heap" where
  "newScope n h = (length h, h @ [\<lparr>name = n\<rparr>])"

text \<open>\<open>PackageNamed\<close>: look the name up under \<open>scopeMtx\<close>; create and store on a miss.\<close>

definition PackageNamed ::
  "string \<Rightarrow> scope_heap \<times> ('t, 'w) Registry \<Rightarrow> (scope_ptr \<times> scope_heap \<times> ('t, 'w) Registry) option" where
  "PackageNamed n st =
     (case st of (h, r) \<Rightarrow>
        if scopeMtx r then None
        else
          (case map_of (scopes r) n of
             Some s \<Rightarrow> Some (s, h, r)
           | None \<Rightarrow>
               (case newScope n h of (s, h') \<Rightarrow>
                  Some (s, h', r\<lparr>scopes := AList.update n s (scopes r)\<rparr>))))"

subsection \<open>Root spans and orphans\<close>

definition rootSpanStart :: "span_ptr \<Rightarrow> ('t, 'w) Registry \<Rightarrow> ('t, 'w) Registry option" where
  "rootSpanStart s r =
     (if spanMtx r then None else Some (r\<lparr>spans := AList.update s () (spans r)\<rparr>))"

definition rootSpanEnd :: "span_ptr \<Rightarrow> ('t, 'w) Registry \<Rightarrow> ('t, 'w) Registry option" where
  "rootSpanEnd s r =
     (if spanMtx r then None else Some (r\<lparr>spans := AList.delete s (spans r)\<rparr>))"

definition orphanedSpan :: "span_ptr \<Rightarrow> ('t, 'w) Registry \<Rightarrow> ('t, 'w) Registry option" where
  "orphanedSpan s r =
     (if orphanMtx r then None else Some (r\<lparr>orphans := AList.update s () (orphans r)\<rparr>))"

definition orphanEnd :: "span_ptr \<Rightarrow> ('t, 'w) Registry \<Rightarrow> ('t, 'w) Registry option" where
  "orphanEnd s r =
     (if orphanMtx r then None else Some (r\<lparr>orphans := AList.delete s (orphans r)\<rparr>))"

subsection \<open>Sequences of operations\<close>

text \<open>
  The operations of registry.go that change a registry, each with the arguments of its
  call (and the seed of the range loop it runs, where it runs one). \<open>step\<close> performs one
  of them to its end, \<open>run\<close> a sequence of them, on the heap of Scope objects and the
  registry; an operation that does not return stops the run.
\<close>

datatype ('t, 'w) op =
    OpObserveTraces "('t, 'w) callback" "nat list"
  | OpCancel int64 "nat list"
  | OpPackageNamed string
  | OpRootSpanStart span_ptr
  | OpRootSpanEnd span_ptr
  | OpOrphanedSpan span_ptr
  | OpOrphanEnd span_ptr

fun step ::
  "('t, 'w) op \<Rightarrow> scope_heap \<times> ('t, 'w) Registry \<Rightarrow> (scope_heap \<times> ('t, 'w) Registry) option" where
  "step (OpObserveTraces cb seed) (h, r) = map_option (\<lambda>(cbId, r'). (h, r')) (ObserveTraces cb seed r)"
| "step (OpCancel cbId seed) (h, r) = map_option (\<lambda>r'. (h, r')) (cancel cbId seed r)"
| "step (OpPackageNamed n) (h, r) = map_option snd (PackageNamed n (h, r))"
| "step (OpRootSpanStart s) (h, r) = map_option (\<lambda>r'. (h, r')) (rootSpanStart s r)"
| "step (OpRootSpanEnd s) (h, r) = map_option (\<lambda>r'. (h, r')) (rootSpanEnd s r)"
| "step (OpOrphanedSpan s) (h, r) = map_option (\<lambda>r'. (h, r')) (orphanedSpan s r)"
| "step (OpOrphanEnd s) (h, r) = map_option (\<lambda>r'. (h, r')) (orphanEnd s r)"

fun run ::
  "('t, 'w) op list \<Rightarrow> scope_heap \<times> ('t, 'w) Registry \<Rightarrow> (scope_heap \<times> ('t, 'w) Registry) option" where
  "run [] st = Some st"
| "run (x # xs) st = (case step x st of None \<Rightarrow> None | Some st' \<Rightarrow> run xs st')"

text \<open>
  The published dispatch function agrees with the map \<open>traceWatchers\<close>: there is an
  order \<open>es\<close> of the entries of the map, each entry once, such that \<open>observeTrace\<close> is
  the callbacks of \<open>es\<close> called one after the other.
\<close>

definition dispatch_consistent :: "('t, 'w) Registry \<Rightarrow> bool" where
  "dispatch_consistent r \<longleftrightarrow>
     (\<exists>es. mset es = mset (traceWatchers r) \<and>
           (\<forall>t w. observeTrace r t w = fold (\<lambda>cb. cb t) (map snd es) w))"

text \<open>All four mutexes are free.\<close>

definition unlocked :: "('t, 'w) Registry \<Rightarrow> bool" where
  "unlocked r \<longleftrightarrow> \<not> watcherMtx r \<and> \<not> scopeMtx r \<and> \<not> spanMtx r \<and> \<not> orphanMtx r"

subsection \<open>A run to try the definitions on\<close>

text \<open>
  Watchers that append their number and the trace to a log. Three of them are registered
  (ids 0, 1 and 2) and the second is cancelled; \<open>R3\<close> is the registry this leaves.
\<close>

definition log_cb :: "nat \<Rightarrow> (nat, (nat \<times> nat) list) callback" where
  "log_cb i t w = w @ [(i, t)]"

definition ops3 :: "(nat, (nat \<times> nat) list) op list" where
  "ops3 = [OpObserveTraces (log_cb 1) [], OpObserveTraces (log_cb 2) [1],
           OpObserveTraces (log_cb 3) [2, 0], OpCancel 1 [1]]"

definition R3 :: "(nat, (nat \<times> nat) list) Registry" where
  "R3 = \<lparr>traceWatcher = Some \<lparr>watcher = (\<lambda>t. fold (\<lambda>cb. cb t) [log_cb 3, log_cb 1])\<rparr>,
          watcherMtx = False, watcherCounter = 3,
          traceWatchers = [(0, log_cb 1), (2, log_cb 3)],
          scopeMtx = False, scopes = [], spanMtx = False, spans = [],
          orphanMtx = False, orphans = []\<rparr>"

text \<open>A run that creates a second scope, registers a watcher and starts a root span.\<close>

definition ops_scopes :: "(nat, (nat \<times> nat) list) op list" where
  "ops_scopes = [OpPackageNamed ''b'', OpObserveTraces (log_cb 1) [], OpRootSpanStart 5]"

subsection \<open>The ids of a run\<close>

text \<open>
  \<open>step_ids\<close> is the id that \<open>ObserveTraces\<close> returns to its caller (the one its cancel
  closure captures) when the operation is a registration that returns, and \<open>cancel_ids\<close>
  collects these ids along a run, in the order of the registrations.
\<close>

fun step_ids :: "('t, 'w) op \<Rightarrow> scope_heap \<times> ('t, 'w) Registry \<Rightarrow> int64 list" where
  "step_ids (OpObserveTraces cb seed) (h, r) =
     (case ObserveTraces cb seed r of None \<Rightarrow> [] | Some (cbId, r') \<Rightarrow> [cbId])"
| "step_ids x st = []"

fun cancel_ids :: "('t, 'w) op list \<Rightarrow> scope_heap \<times> ('t, 'w) Registry \<Rightarrow> int64 list" where
  "cancel_ids [] st = []"
| "cancel_ids (x # xs) st =
     (case step x st of None \<Rightarrow> [] | Some st' \<Rightarrow> step_ids x st @ cancel_ids xs st')"

text \<open>
  The registry with the watchers 1 and 2 (ids 0 and 1), and the one that cancelling id 0
  leaves.
\<close>

definition R_two :: "(nat, (nat \<times> nat) list) Registry" where
  "R_two = \<lparr>traceWatcher = Some \<lparr>watcher = (\<lambda>t. fold (\<lambda>cb. cb t) [log_cb 2, log_cb 1])\<rparr>,
          watcherMtx = False, watcherCounter = 2,
          traceWatchers = [(0, log_cb 1), (1, log_cb 2)],
          scopeMtx = False, scopes = [], spanMtx = False, spans = [],
          orphanMtx = False, orphans = []\<rparr>"

definition R_one :: "(nat, (nat \<times> nat) list) Registry" where
  "R_one = \<lparr>traceWatcher = Some \<lparr>watcher = log_cb 2\<rparr>,
          watcherMtx = False, watcherCounter = 2,
          traceWatchers = [(1, log_cb 2)],
          scopeMtx = False, scopes = [], spanMtx = False, spans = [],
          orphanMtx = False, orphans = []\<rparr>"

text \<open>
  \<open>churn n c\<close> registers a watcher and cancels it at once, \<open>n\<close> times over; \<open>c\<close> is the
  id of the first of these registrations. \<open>R_wrap\<close> is the registry after the registration
  of watcher 1 on a new registry (id 0) and \<open>2 ^ 64 - 2\<close> such rounds: the counter is at
  its last value before it is 0 again. \<open>R_wrap2\<close> is \<open>R_wrap\<close> after the registrations
  of the watchers 2 and 3, \<open>R_wrap3\<close> what the cancel function of watcher 1 makes of it.
  \<open>R_top\<close> is a new registry after \<open>2 ^ 63 - 1\<close> rounds.
\<close>

fun churn :: "nat \<Rightarrow> int64 \<Rightarrow> (nat, (nat \<times> nat) list) op list" where
  "churn 0 c = []"
| "churn (Suc n) c = OpObserveTraces (log_cb 0) [] # OpCancel c [] # churn n (c + 1)"

definition R_wrap :: "(nat, (nat \<times> nat) list) Registry" where
  "R_wrap = \<lparr>traceWatcher = Some \<lparr>watcher = log_cb 1\<rparr>,
          watcherMtx = False, watcherCounter = 18446744073709551615,
          traceWatchers = [(0, log_cb 1)],
          scopeMtx = False, scopes = [], spanMtx = False, spans = [],
          orphanMtx = False, orphans = []\<rparr>"

definition R_wrap2 :: "(nat, (nat \<times> nat) list) Registry" where
  "R_wrap2 = \<lparr>traceWatcher = Some \<lparr>watcher = (\<lambda>t. fold (\<lambda>cb. cb t) [log_cb 3, log_cb 2])\<rparr>,
          watcherMtx = False, watcherCounter = 1,
          traceWatchers = [(0, log_cb 3), (18446744073709551615, log_cb 2)],
          scopeMtx = False, scopes = [], spanMtx = False, spans = [],
          orphanMtx = False, orphans = []\<rparr>"

definition R_wrap3 :: "(nat, (nat \<times> nat) list) Registry" where
  "R_wrap3 = \<lparr>traceWatcher = Some \<lparr>watcher = log_cb 2\<rparr>,
          watcherMtx = False, watcherCounter = 1,
          traceWatchers = [(18446744073709551615, log_cb 2)],
          scopeMtx = False, scopes = [], spanMtx = False, spans = [],
          orphanMtx = False, orphans = []\<rparr>"

definition R_top :: "(nat, (nat \<times> nat) list) Registry" where
  "R_top = NewRegistry\<lparr>watcherCounter := 9223372036854775807\<rparr>"

section \<open>Properties\<close>

subsection \<open>The iteration order\<close>

lemma mset_shuffle: "mset (shuffle seed xs) = mset xs"
proof (induction seed xs rule: shuffle.induct)
  case (3 i seed x xs)
  let ?ys = "x # xs"
  let ?j = "i mod length ?ys"
  have j: "?j < length ?ys" by simp
  have "mset ?ys = mset (take ?j ?ys @ ?ys ! ?j # drop (Suc ?j) ?ys)"
    using id_take_nth_drop [OF j] by simp
  then have "mset ?ys = add_mset (?ys ! ?j) (mset (take ?j ?ys @ drop (Suc ?j) ?ys))"
    by simp
  with 3 show ?case by (simp add: Let_def del: take_Suc_Cons drop_Suc_Cons nth_Cons_Suc)
qed simp_all

lemma shuffle_any_order: "mset ys = mset xs \<Longrightarrow> \<exists>seed. shuffle seed xs = ys"
proof (induction ys arbitrary: xs)
  case Nil
  then show ?case by (intro exI [of _ "[]"]) simp
next
  case (Cons y ys)
  then have "y \<in> set xs" by (metis list.set_intros(1) set_mset_mset)
  then obtain j where j: "j < length xs" "xs ! j = y" by (auto simp: in_set_conv_nth)
  let ?rest = "take j xs @ drop (Suc j) xs"
  have "mset xs = add_mset y (mset ?rest)"
    using id_take_nth_drop [OF j(1)] j(2) by (metis mset.simps(2) mset_append union_mset_add_mset_right)
  with Cons.prems have "mset ys = mset ?rest" by simp
  from Cons.IH [OF this] obtain seed where s: "shuffle seed ?rest = ys" by blast
  from j obtain x xs' where xs: "xs = x # xs'" by (cases xs) auto
  have "shuffle (j # seed) (x # xs') = (x # xs') ! j # shuffle seed (take j (x # xs') @ drop (Suc j) (x # xs'))"
    using j(1) unfolding xs by (simp add: Let_def del: take_Suc_Cons drop_Suc_Cons nth_Cons_Suc)
  then show ?case using s j(2) unfolding xs by blast
qed

subsection \<open>Trace watchers\<close>

lemma updateWatcher_consistent: "dispatch_consistent (updateWatcher seed r)"
proof -
  let ?es = "shuffle seed (traceWatchers r)"
  have m: "mset ?es = mset (traceWatchers r)" by (rule mset_shuffle)
  have tw: "traceWatchers (updateWatcher seed r) = traceWatchers r"
    by (simp add: updateWatcher_def Let_def)
  have "observeTrace (updateWatcher seed r) t w = fold (\<lambda>cb. cb t) (map snd ?es) w" for t w
  proof (cases "map snd ?es")
    case Nil
    then show ?thesis by (simp add: updateWatcher_def observeTrace_def Let_def)
  next
    case (Cons c cs)
    then show ?thesis by (cases cs) (simp_all add: updateWatcher_def observeTrace_def Let_def)
  qed
  with m tw show ?thesis unfolding dispatch_consistent_def by metis
qed

lemma dispatch_consistent_cong:
  "traceWatcher r' = traceWatcher r \<Longrightarrow> traceWatchers r' = traceWatchers r \<Longrightarrow>
   dispatch_consistent r \<Longrightarrow> dispatch_consistent r'"
  by (simp add: dispatch_consistent_def observeTrace_def)

lemma updateWatcher_fields [simp]:
  "watcherMtx (updateWatcher seed r) = watcherMtx r"
  "watcherCounter (updateWatcher seed r) = watcherCounter r"
  "traceWatchers (updateWatcher seed r) = traceWatchers r"
  "scopeMtx (updateWatcher seed r) = scopeMtx r"
  "scopes (updateWatcher seed r) = scopes r"
  "spanMtx (updateWatcher seed r) = spanMtx r"
  "spans (updateWatcher seed r) = spans r"
  "orphanMtx (updateWatcher seed r) = orphanMtx r"
  "orphans (updateWatcher seed r) = orphans r"
  by (simp_all add: updateWatcher_def Let_def)

lemma ObserveTraces_consistent:
  "ObserveTraces cb seed r = Some (k, r') \<Longrightarrow> dispatch_consistent r'"
  by (auto simp: ObserveTraces_def Let_def split: if_splits
      intro: dispatch_consistent_cong [OF _ _ updateWatcher_consistent])

lemma cancel_consistent:
  "cancel k seed r = Some r' \<Longrightarrow> dispatch_consistent r'"
  by (auto simp: cancel_def Let_def split: if_splits
      intro: dispatch_consistent_cong [OF _ _ updateWatcher_consistent])

lemma step_inv:
  assumes "step x (h, r) = Some (h', r')" and "unlocked r" and "dispatch_consistent r"
    and "distinct (map fst (traceWatchers r))"
  shows "unlocked r' \<and> dispatch_consistent r' \<and> distinct (map fst (traceWatchers r'))"
proof (cases x)
  case (OpObserveTraces cb seed)
  with assms obtain k where o: "ObserveTraces cb seed r = Some (k, r')" by auto
  from o assms(2,4) have "unlocked r'" "distinct (map fst (traceWatchers r'))"
    by (auto simp: ObserveTraces_def Let_def unlocked_def distinct_update split: if_splits)
  with ObserveTraces_consistent [OF o] show ?thesis by simp
next
  case (OpCancel k seed)
  with assms have o: "cancel k seed r = Some r'" by auto
  from o assms(2,4) have "unlocked r'" "distinct (map fst (traceWatchers r'))"
    by (auto simp: cancel_def Let_def unlocked_def distinct_delete split: if_splits)
  with cancel_consistent [OF o] show ?thesis by simp
next
  case (OpPackageNamed n)
  with assms show ?thesis
    by (auto simp: PackageNamed_def newScope_def unlocked_def split: if_splits option.splits
        elim!: dispatch_consistent_cong [rotated 2])
next
  case (OpRootSpanStart s)
  with assms show ?thesis
    by (auto simp: rootSpanStart_def unlocked_def split: if_splits
        elim!: dispatch_consistent_cong [rotated 2])
next
  case (OpRootSpanEnd s)
  with assms show ?thesis
    by (auto simp: rootSpanEnd_def unlocked_def split: if_splits
        elim!: dispatch_consistent_cong [rotated 2])
next
  case (OpOrphanedSpan s)
  with assms show ?thesis
    by (auto simp: orphanedSpan_def unlocked_def split: if_splits
        elim!: dispatch_consistent_cong [rotated 2])
next
  case (OpOrphanEnd s)
  with assms show ?thesis
    by (auto simp: orphanEnd_def unlocked_def split: if_splits
        elim!: dispatch_consistent_cong [rotated 2])
qed

lemma run_inv:
  "run ops (h, r) = Some (h', r') \<Longrightarrow> unlocked r \<Longrightarrow> dispatch_consistent r \<Longrightarrow>
   distinct (map fst (traceWatchers r)) \<Longrightarrow>
   unlocked r' \<and> dispatch_consistent r' \<and> distinct (map fst (traceWatchers r'))"
proof (induction ops arbitrary: h r)
  case Nil
  then show ?case by simp
next
  case (Cons x xs)
  then obtain h1 r1 where s: "step x (h, r) = Some (h1, r1)" and r: "run xs (h1, r1) = Some (h', r')"
    by (auto split: option.splits)
  from step_inv [OF s Cons.prems(2-4)] Cons.IH [OF r] show ?case by blast
qed

lemma NewRegistry_inv:
  "unlocked NewRegistry" "dispatch_consistent NewRegistry" "distinct (map fst (traceWatchers NewRegistry))"
  by (simp_all add: NewRegistry_def unlocked_def dispatch_consistent_def observeTrace_def)


text \<open>
  Claim C1. After any sequence of operations on a new registry (registrations and
  cancellations of watchers among them), the published dispatch function agrees with the
  map \<open>traceWatchers\<close>: the keys of the map are distinct, and one call of \<open>observeTrace\<close>
  is the callbacks of the entries of the map called one after the other, every entry
  once, in some order. With no entry it does nothing, with one entry it is that
  callback. \<open>observeTrace\<close> takes no lock: whatever the four mutexes hold, it returns the
  same result.
\<close>

theorem observeTrace_calls_each_registered_watcher_once:
  assumes "run ops (h, NewRegistry) = Some (h', r)"
  shows "distinct (map fst (traceWatchers r)) \<and>
         (\<exists>es. mset es = mset (traceWatchers r) \<and>
               (\<forall>t w. observeTrace r t w = fold (\<lambda>cb. cb t) (map snd es) w)) \<and>
         (\<forall>t w. traceWatchers r = [] \<longrightarrow> observeTrace r t w = w) \<and>
         (\<forall>t w k cb. traceWatchers r = [(k, cb)] \<longrightarrow> observeTrace r t w = cb t w) \<and>
         (\<forall>t w a b c d.
            observeTrace (r\<lparr>watcherMtx := a, scopeMtx := b, spanMtx := c, orphanMtx := d\<rparr>) t w =
            observeTrace r t w)"
proof -
  from run_inv [OF assms NewRegistry_inv]
  have d: "distinct (map fst (traceWatchers r))" and c: "dispatch_consistent r" by simp_all
  from c obtain es where es: "mset es = mset (traceWatchers r)"
    and obs: "\<And>t w. observeTrace r t w = fold (\<lambda>cb. cb t) (map snd es) w"
    unfolding dispatch_consistent_def by blast
  have none: "observeTrace r t w = w" if "traceWatchers r = []" for t w
    using es obs [of t w] that by simp
  have one: "observeTrace r t w = cb t w" if "traceWatchers r = [(k, cb)]" for t w k cb
  proof -
    from es that have "mset es = {#(k, cb)#}" by simp
    then have "es = [(k, cb)]" by (simp add: mset_single_iff_right)
    with obs [of t w] show ?thesis by simp
  qed
  have free: "observeTrace (r\<lparr>watcherMtx := a, scopeMtx := b, spanMtx := c, orphanMtx := d\<rparr>) t w =
      observeTrace r t w" for t w a b c d
    by (simp add: observeTrace_def)
  from d es obs none one free show ?thesis by blast
qed

theorem observeTrace_calls_each_registered_watcher_once_witness:
  "run ops3 ([], NewRegistry) = Some ([], R3) \<and>
   distinct (map fst (traceWatchers R3)) \<and>
   (\<exists>es. mset es = mset (traceWatchers R3) \<and>
         (\<forall>t w. observeTrace R3 t w = fold (\<lambda>cb. cb t) (map snd es) w)) \<and>
   observeTrace R3 7 [] = [(3, 7), (1, 7)]"
proof -
  have r: "run ops3 ([], NewRegistry) = Some ([], R3)"
    by (simp add: ops3_def R3_def NewRegistry_def ObserveTraces_def cancel_def
        updateWatcher_def Let_def)
  have o: "observeTrace R3 7 [] = [(3, 7), (1, 7)]"
    by (simp add: R3_def observeTrace_def log_cb_def)
  from observeTrace_calls_each_registered_watcher_once [OF r] r o show ?thesis by blast
qed

subsection \<open>Scopes\<close>

lemma step_scopes:
  assumes "step x (h, r) = Some (h', r')"
  shows "scopeMtx r' = scopeMtx r \<and>
         (map_of (scopes r) n = Some s \<longrightarrow> map_of (scopes r') n = Some s)"
proof (cases x)
  case (OpObserveTraces cb seed)
  with assms show ?thesis by (auto simp: ObserveTraces_def Let_def split: if_splits)
next
  case (OpCancel k seed)
  with assms show ?thesis by (auto simp: cancel_def Let_def split: if_splits)
next
  case (OpPackageNamed m)
  with assms show ?thesis
    by (auto simp: PackageNamed_def newScope_def update_conv' split: if_splits option.splits)
next
  case (OpRootSpanStart s)
  with assms show ?thesis by (auto simp: rootSpanStart_def split: if_splits)
next
  case (OpRootSpanEnd s)
  with assms show ?thesis by (auto simp: rootSpanEnd_def split: if_splits)
next
  case (OpOrphanedSpan s)
  with assms show ?thesis by (auto simp: orphanedSpan_def split: if_splits)
next
  case (OpOrphanEnd s)
  with assms show ?thesis by (auto simp: orphanEnd_def split: if_splits)
qed

lemma run_scopes:
  "run ops (h, r) = Some (h', r') \<Longrightarrow>
   scopeMtx r' = scopeMtx r \<and>
   (map_of (scopes r) n = Some s \<longrightarrow> map_of (scopes r') n = Some s)"
proof (induction ops arbitrary: h r)
  case Nil
  then show ?case by simp
next
  case (Cons x xs)
  then obtain h1 r1 where s: "step x (h, r) = Some (h1, r1)" and r: "run xs (h1, r1) = Some (h', r')"
    by (auto split: option.splits)
  from step_scopes [OF s, of n s] Cons.IH [OF r] show ?case by simp
qed

lemma PackageNamed_hit:
  "\<not> scopeMtx r \<Longrightarrow> map_of (scopes r) n = Some s \<Longrightarrow> PackageNamed n (h, r) = Some (s, h, r)"
  by (simp add: PackageNamed_def)

text \<open>
  Claim C2. On every registry whose \<open>scopeMtx\<close> is free and for every name \<open>n\<close>,
  \<open>PackageNamed n\<close> returns a Scope and leaves it stored under \<open>n\<close>; when \<open>n\<close> was not
  stored, the Scope is a newly allocated object of that name. After any further sequence of
  operations, \<open>PackageNamed n\<close> returns the very same Scope (the same address) and
  changes nothing.
\<close>

theorem PackageNamed_returns_the_same_scope:
  assumes "\<not> scopeMtx r"
  shows "\<exists>s h1 r1.
           PackageNamed n (h, r) = Some (s, h1, r1) \<and>
           map_of (scopes r1) n = Some s \<and>
           (map_of (scopes r) n = None \<longrightarrow>
              s = length h \<and> h1 = h @ [\<lparr>name = n\<rparr>] \<and>
              scopes r1 = AList.update n s (scopes r)) \<and>
           (\<forall>ops h2 r2. run ops (h1, r1) = Some (h2, r2) \<longrightarrow>
              PackageNamed n (h2, r2) = Some (s, h2, r2))"
proof -
  have "\<exists>s h1 r1. PackageNamed n (h, r) = Some (s, h1, r1)"
    using assms by (cases "map_of (scopes r) n") (simp_all add: PackageNamed_def newScope_def)
  then obtain s h1 r1 where p: "PackageNamed n (h, r) = Some (s, h1, r1)" by blast
  from p assms have stored: "map_of (scopes r1) n = Some s" and m: "\<not> scopeMtx r1"
    by (auto simp: PackageNamed_def newScope_def update_conv' split: option.splits)
  from p assms have fresh: "map_of (scopes r) n = None \<longrightarrow>
      s = length h \<and> h1 = h @ [\<lparr>name = n\<rparr>] \<and> scopes r1 = AList.update n s (scopes r)"
    by (auto simp: PackageNamed_def newScope_def)
  have later: "PackageNamed n (h2, r2) = Some (s, h2, r2)"
    if "run ops (h1, r1) = Some (h2, r2)" for ops h2 r2
    using run_scopes [OF that, of n s] stored m by (simp add: PackageNamed_hit)
  from later have l: "\<forall>ops h2 r2. run ops (h1, r1) = Some (h2, r2) \<longrightarrow>
      PackageNamed n (h2, r2) = Some (s, h2, r2)" by blast
  show ?thesis
    by (rule exI [of _ s], rule exI [of _ h1], rule exI [of _ r1]) (intro conjI p stored fresh l)
qed

theorem PackageNamed_returns_the_same_scope_witness:
  "\<not> scopeMtx (NewRegistry :: (nat, (nat \<times> nat) list) Registry) \<and>
   (\<exists>h1 r1 h2 r2.
      PackageNamed ''a'' ([], NewRegistry :: (nat, (nat \<times> nat) list) Registry) = Some (0, h1, r1) \<and>
      run ops_scopes (h1, r1) = Some (h2, r2) \<and>
      map_of (scopes r2) ''b'' = Some 1 \<and>
      PackageNamed ''a'' (h2, r2) = Some (0, h2, r2))"
proof -
  let ?R = "NewRegistry :: (nat, (nat \<times> nat) list) Registry"
  have f: "\<not> scopeMtx ?R" by (simp add: NewRegistry_def)
  from PackageNamed_returns_the_same_scope [OF f, of "''a''" "[]"]
  obtain s h1 r1 where p: "PackageNamed ''a'' ([], ?R) = Some (s, h1, r1)"
    and l: "\<And>ops h2 r2. run ops (h1, r1) = Some (h2, r2) \<Longrightarrow>
              PackageNamed ''a'' (h2, r2) = Some (s, h2, r2)"
    by blast
  have p0: "PackageNamed ''a'' ([], ?R) =
      Some (0, [\<lparr>name = ''a''\<rparr>], ?R\<lparr>scopes := [(''a'', 0)]\<rparr>)"
    by (simp add: PackageNamed_def NewRegistry_def newScope_def)
  with p have s: "s = 0" and h1: "h1 = [\<lparr>name = ''a''\<rparr>]" and r1: "r1 = ?R\<lparr>scopes := [(''a'', 0)]\<rparr>"
    by simp_all
  obtain h2 r2 where r: "run ops_scopes (h1, r1) = Some (h2, r2)"
    and b: "map_of (scopes r2) ''b'' = Some 1"
    unfolding h1 r1
    by (simp add: ops_scopes_def PackageNamed_def NewRegistry_def newScope_def ObserveTraces_def
        updateWatcher_def rootSpanStart_def Let_def)
  from l [OF r] p r b f s show ?thesis by blast
qed

subsection \<open>Watcher ids and cancellation\<close>

lemma step_watchers:
  assumes "step x (h, r) = Some (h', r')"
  shows "watcherCounter r' = watcherCounter r + word_of_nat (length (step_ids x (h, r))) \<and>
         step_ids x (h, r) = (if length (step_ids x (h, r)) = 0 then [] else [watcherCounter r]) \<and>
         fst ` set (traceWatchers r') \<subseteq> fst ` set (traceWatchers r) \<union> set (step_ids x (h, r))"
proof (cases x)
  case (OpObserveTraces cb seed)
  with assms have "r' = (updateWatcher seed
             (r\<lparr>watcherMtx := True, watcherCounter := watcherCounter r + 1,
                  traceWatchers := AList.update (watcherCounter r) cb (traceWatchers r)\<rparr>))
            \<lparr>watcherMtx := False\<rparr>" and "\<not> watcherMtx r"
    by (auto simp: ObserveTraces_def Let_def split: if_splits)
  with OpObserveTraces show ?thesis
    by (simp add: ObserveTraces_def Let_def dom_update)
next
  case (OpCancel k seed)
  with assms have "r' = (updateWatcher seed
             (r\<lparr>watcherMtx := True, traceWatchers := AList.delete k (traceWatchers r)\<rparr>))
            \<lparr>watcherMtx := False\<rparr>"
    by (auto simp: cancel_def Let_def split: if_splits)
  with OpCancel dom_delete_subset [of k "traceWatchers r"] show ?thesis
    by simp
next
  case (OpPackageNamed m)
  with assms show ?thesis
    by (auto simp: PackageNamed_def newScope_def split: if_splits option.splits)
next
  case (OpRootSpanStart s)
  with assms show ?thesis by (auto simp: rootSpanStart_def split: if_splits)
next
  case (OpRootSpanEnd s)
  with assms show ?thesis by (auto simp: rootSpanEnd_def split: if_splits)
next
  case (OpOrphanedSpan s)
  with assms show ?thesis by (auto simp: orphanedSpan_def split: if_splits)
next
  case (OpOrphanEnd s)
  with assms show ?thesis by (auto simp: orphanEnd_def split: if_splits)
qed

lemma run_keys:
  "run ops (h, r) = Some (h', r') \<Longrightarrow>
   fst ` set (traceWatchers r') \<subseteq> fst ` set (traceWatchers r) \<union> set (cancel_ids ops (h, r))"
proof (induction ops arbitrary: h r)
  case Nil
  then show ?case by simp
next
  case (Cons x xs)
  then obtain h1 r1 where s: "step x (h, r) = Some (h1, r1)" and r: "run xs (h1, r1) = Some (h', r')"
    by (auto split: option.splits)
  from step_watchers [OF s] Cons.IH [OF r] s show ?case by auto
qed

lemma run_counter:
  "run ops (h, r) = Some (h', r') \<Longrightarrow>
   cancel_ids ops (h, r) =
     map (\<lambda>i. watcherCounter r + word_of_nat i) [0..<length (cancel_ids ops (h, r))] \<and>
   watcherCounter r' = watcherCounter r + word_of_nat (length (cancel_ids ops (h, r)))"
proof (induction ops arbitrary: h r)
  case Nil
  then show ?case by simp
next
  case (Cons x xs)
  then obtain h1 r1 where s: "step x (h, r) = Some (h1, r1)" and r: "run xs (h1, r1) = Some (h', r')"
    by (auto split: option.splits)
  let ?m = "length (cancel_ids xs (h1, r1))"
  note w = step_watchers [OF s]
  note ih = Cons.IH [OF r]
  show ?case
  proof (cases "length (step_ids x (h, r)) = 0")
    case True
    with w ih s show ?thesis by simp
  next
    case False
    with w have i: "step_ids x (h, r) = [watcherCounter r]" and c: "watcherCounter r1 = watcherCounter r + 1"
      by (simp_all split: if_splits)
    have "map (\<lambda>i. watcherCounter r + word_of_nat i) [0..<Suc ?m] =
        watcherCounter r # map (\<lambda>i. watcherCounter r + 1 + word_of_nat i) [0..<?m]"
      by (simp add: upt_conv_Cons map_Suc_upt [symmetric] add.assoc del: upt_Suc)
    with ih i c s show ?thesis by (simp add: add.assoc del: upt_Suc)
  qed
qed

lemma sint_word_of_nat_64: "i < 2 ^ 63 \<Longrightarrow> sint (word_of_nat i :: int64) = int i"
proof -
  assume "i < 2 ^ 63"
  then have "int i < 2 ^ 63" by (metis of_nat_less_numeral_power_cancel_iff)
  then show ?thesis by (simp add: signed_of_nat signed_take_bit_int_eq_self)
qed

lemma word_of_nat_inj_64:
  "i < 2 ^ 64 \<Longrightarrow> j < 2 ^ 64 \<Longrightarrow> (word_of_nat i :: int64) = word_of_nat j \<Longrightarrow> i = j"
  by (simp add: word_of_nat_eq_iff take_bit_nat_eq_self)


lemma step_mutexes:
  assumes "step x (h, r) = Some (h', r')"
  shows "watcherMtx r' = watcherMtx r \<and> scopeMtx r' = scopeMtx r \<and>
         spanMtx r' = spanMtx r \<and> orphanMtx r' = orphanMtx r"
proof (cases x)
  case (OpObserveTraces cb seed)
  with assms show ?thesis by (auto simp: ObserveTraces_def Let_def split: if_splits)
next
  case (OpCancel k seed)
  with assms show ?thesis by (auto simp: cancel_def Let_def split: if_splits)
next
  case (OpPackageNamed m)
  with assms show ?thesis
    by (auto simp: PackageNamed_def newScope_def split: if_splits option.splits)
next
  case (OpRootSpanStart s)
  with assms show ?thesis by (auto simp: rootSpanStart_def split: if_splits)
next
  case (OpRootSpanEnd s)
  with assms show ?thesis by (auto simp: rootSpanEnd_def split: if_splits)
next
  case (OpOrphanedSpan s)
  with assms show ?thesis by (auto simp: orphanedSpan_def split: if_splits)
next
  case (OpOrphanEnd s)
  with assms show ?thesis by (auto simp: orphanEnd_def split: if_splits)
qed

lemma step_consistent:
  assumes "step x (h, r) = Some (h', r')" and "dispatch_consistent r"
  shows "dispatch_consistent r'"
proof (cases x)
  case (OpObserveTraces cb seed)
  with assms show ?thesis by (auto intro: ObserveTraces_consistent)
next
  case (OpCancel k seed)
  with assms show ?thesis by (auto intro: cancel_consistent)
next
  case (OpPackageNamed n)
  with assms show ?thesis
    by (auto simp: PackageNamed_def newScope_def split: if_splits option.splits
        elim!: dispatch_consistent_cong [rotated 2])
next
  case (OpRootSpanStart s)
  with assms show ?thesis
    by (auto simp: rootSpanStart_def split: if_splits elim!: dispatch_consistent_cong [rotated 2])
next
  case (OpRootSpanEnd s)
  with assms show ?thesis
    by (auto simp: rootSpanEnd_def split: if_splits elim!: dispatch_consistent_cong [rotated 2])
next
  case (OpOrphanedSpan s)
  with assms show ?thesis
    by (auto simp: orphanedSpan_def split: if_splits elim!: dispatch_consistent_cong [rotated 2])
next
  case (OpOrphanEnd s)
  with assms show ?thesis
    by (auto simp: orphanEnd_def split: if_splits elim!: dispatch_consistent_cong [rotated 2])
qed

lemma run_mutexes_consistent:
  "run ops (h, r) = Some (h', r') \<Longrightarrow>
   watcherMtx r' = watcherMtx r \<and> (dispatch_consistent r \<longrightarrow> dispatch_consistent r')"
proof (induction ops arbitrary: h r)
  case Nil
  then show ?case by simp
next
  case (Cons x xs)
  then obtain h1 r1 where s: "step x (h, r) = Some (h1, r1)" and r: "run xs (h1, r1) = Some (h', r')"
    by (auto split: option.splits)
  from step_mutexes [OF s] step_consistent [OF s] Cons.IH [OF r] show ?case by auto
qed

lemma cancel_unfold:
  "\<not> watcherMtx r \<Longrightarrow>
   cancel k seed r =
     Some ((updateWatcher seed (r\<lparr>watcherMtx := True,
        traceWatchers := AList.delete k (traceWatchers r)\<rparr>))\<lparr>watcherMtx := False\<rparr>)"
  by (simp add: cancel_def Let_def)

lemma cancel_absent:
  assumes "\<not> watcherMtx r" and "k \<notin> fst ` set (traceWatchers r)"
  shows "\<exists>r'. cancel k seed r = Some r' \<and> r' = r\<lparr>traceWatcher := traceWatcher r'\<rparr>"
  using assms by (simp add: cancel_unfold updateWatcher_def Let_def)

lemma cancel_twice_same_order:
  assumes "cancel k seed r = Some r'"
  shows "cancel k seed r' = Some r'"
proof -
  from assms have m: "\<not> watcherMtx r" by (auto simp: cancel_def split: if_splits)
  with assms have r': "r' = (updateWatcher seed (r\<lparr>watcherMtx := True,
        traceWatchers := AList.delete k (traceWatchers r)\<rparr>))\<lparr>watcherMtx := False\<rparr>"
    by (simp add: cancel_unfold)
  then have m': "\<not> watcherMtx r'" by simp
  show ?thesis
    unfolding cancel_unfold [OF m'] unfolding r'
    by (simp add: updateWatcher_def Let_def delete_idem)
qed

text \<open>
  Claim C6. Let \<open>ObserveTraces cb\<close> return the id \<open>cbId\<close> of its cancel function, and let
  any operations follow. The first call of the cancel function returns; it deletes the
  entry \<open>cbId\<close> from the map and nothing else, and the dispatch function it publishes
  calls the remaining entries only. Called again at once, it returns the very same
  registry. After any further operations that register no watcher under the id \<open>cbId\<close>
  again, the entry is still absent, \<open>observeTrace\<close> calls the entries of the map only,
  and one more call of the cancel function returns and changes no field but the
  pointer \<open>traceWatcher\<close>, which it publishes anew for the same map.
\<close>

theorem cancel_deregisters_once:
  assumes "ObserveTraces cb seed r = Some (cbId, r1)"
      and "run ops1 (h, r1) = Some (h1, r2)"
  shows "\<exists>r3. cancel cbId seed1 r2 = Some r3 \<and>
           traceWatchers r3 = AList.delete cbId (traceWatchers r2) \<and>
           cbId \<notin> fst ` set (traceWatchers r3) \<and>
           dispatch_consistent r3 \<and>
           cancel cbId seed1 r3 = Some r3 \<and>
           (\<forall>ops2 h2 r4 seed2.
              run ops2 (h1, r3) = Some (h2, r4) \<and> cbId \<notin> set (cancel_ids ops2 (h1, r3)) \<longrightarrow>
              cbId \<notin> fst ` set (traceWatchers r4) \<and>
              dispatch_consistent r4 \<and>
              (\<exists>r5. cancel cbId seed2 r4 = Some r5 \<and>
                    r5 = r4\<lparr>traceWatcher := traceWatcher r5\<rparr> \<and>
                    dispatch_consistent r5))"
proof -
  from assms(1) have "\<not> watcherMtx r1"
    by (auto simp: ObserveTraces_def Let_def split: if_splits)
  with run_mutexes_consistent [OF assms(2)] have m2: "\<not> watcherMtx r2" by simp
  define r3 where "r3 = (updateWatcher seed1 (r2\<lparr>watcherMtx := True,
        traceWatchers := AList.delete cbId (traceWatchers r2)\<rparr>))\<lparr>watcherMtx := False\<rparr>"
  have c: "cancel cbId seed1 r2 = Some r3" unfolding r3_def by (rule cancel_unfold [OF m2])
  have tw: "traceWatchers r3 = AList.delete cbId (traceWatchers r2)" by (simp add: r3_def)
  have absent: "cbId \<notin> fst ` set (traceWatchers r3)" unfolding tw by (rule delete_notin_dom)
  have m3: "\<not> watcherMtx r3" by (simp add: r3_def)
  have cons3: "dispatch_consistent r3" by (rule cancel_consistent [OF c])
  have later: "\<forall>ops2 h2 r4 seed2.
      run ops2 (h1, r3) = Some (h2, r4) \<and> cbId \<notin> set (cancel_ids ops2 (h1, r3)) \<longrightarrow>
      cbId \<notin> fst ` set (traceWatchers r4) \<and>
      dispatch_consistent r4 \<and>
      (\<exists>r5. cancel cbId seed2 r4 = Some r5 \<and> r5 = r4\<lparr>traceWatcher := traceWatcher r5\<rparr> \<and>
            dispatch_consistent r5)"
  proof (intro allI impI, elim conjE)
    fix ops2 h2 r4 seed2
    assume run: "run ops2 (h1, r3) = Some (h2, r4)" and ids: "cbId \<notin> set (cancel_ids ops2 (h1, r3))"
    from run_keys [OF run] absent ids have a4: "cbId \<notin> fst ` set (traceWatchers r4)" by blast
    from run_mutexes_consistent [OF run] m3 cons3
    have m4: "\<not> watcherMtx r4" and c4: "dispatch_consistent r4" by simp_all
    from cancel_absent [OF m4 a4, of seed2] obtain r5
      where c5: "cancel cbId seed2 r4 = Some r5" and e5: "r5 = r4\<lparr>traceWatcher := traceWatcher r5\<rparr>"
      by blast
    from a4 c4 c5 e5 cancel_consistent [OF c5]
    show "cbId \<notin> fst ` set (traceWatchers r4) \<and>
      dispatch_consistent r4 \<and>
      (\<exists>r5. cancel cbId seed2 r4 = Some r5 \<and> r5 = r4\<lparr>traceWatcher := traceWatcher r5\<rparr> \<and>
            dispatch_consistent r5)" by blast
  qed
  show ?thesis
    by (rule exI [of _ r3])
      (intro conjI c tw absent cons3 cancel_twice_same_order [OF c] later)
qed

theorem cancel_deregisters_once_witness:
  "(\<exists>r1. ObserveTraces (log_cb 1) [] NewRegistry = Some (0, r1) \<and>
         run [OpObserveTraces (log_cb 2) [1]] ([], r1) = Some ([], R_two)) \<and>
   observeTrace R_two 7 [] = [(2, 7), (1, 7)] \<and>
   cancel 0 [] R_two = Some R_one \<and>
   cancel 0 [] R_one = Some R_one \<and>
   cancel 0 [5] R_one = Some R_one \<and>
   dispatch_consistent R_one \<and>
   observeTrace R_one 7 [] = [(2, 7)]"
proof -
  define r1 :: "(nat, (nat \<times> nat) list) Registry" where
   "r1 = \<lparr>traceWatcher = Some \<lparr>watcher = log_cb 1\<rparr>,
          watcherMtx = False, watcherCounter = 1,
          traceWatchers = [(0, log_cb 1)],
          scopeMtx = False, scopes = [], spanMtx = False, spans = [],
          orphanMtx = False, orphans = []\<rparr>"
  have o: "ObserveTraces (log_cb 1) [] NewRegistry = Some (0, r1)"
    by (simp add: r1_def NewRegistry_def ObserveTraces_def updateWatcher_def Let_def)
  have r: "run [OpObserveTraces (log_cb 2) [1]] ([], r1) = Some ([], R_two)"
    by (simp add: r1_def R_two_def ObserveTraces_def updateWatcher_def Let_def)
  have c: "cancel 0 [] R_two = Some R_one"
    by (simp add: R_two_def R_one_def cancel_def updateWatcher_def Let_def)
  have c5: "cancel 0 [5] R_one = Some R_one"
    by (simp add: R_one_def cancel_def updateWatcher_def Let_def)
  have t2: "observeTrace R_two 7 [] = [(2, 7), (1, 7)]"
    by (simp add: R_two_def observeTrace_def log_cb_def)
  have t1: "observeTrace R_one 7 [] = [(2, 7)]"
    by (simp add: R_one_def observeTrace_def log_cb_def)
  from cancel_deregisters_once [OF o r, of "[]"] c
  have "dispatch_consistent R_one" and "cancel 0 [] R_one = Some R_one" by auto
  with o r c c5 t2 t1 show ?thesis by blast
qed

lemma ids_sorted:
  assumes "n \<le> 2 ^ 63"
  shows "sorted_wrt (\<lambda>a b. sint a < sint b) (map (word_of_nat :: nat \<Rightarrow> int64) [0..<n])"
proof -
  have "sint (word_of_nat i :: int64) < sint (word_of_nat j :: int64)" if "i < j" "j < n" for i j
    using that assms by (simp add: sint_word_of_nat_64)
  then show ?thesis by (simp add: sorted_wrt_map sorted_wrt_iff_nth_less)
qed

lemma sorted_sint_distinct:
  "sorted_wrt (\<lambda>a b. sint a < sint b) (xs :: int64 list) \<Longrightarrow> distinct xs"
  by (induction xs) auto

text \<open>
  Claim C9, amended. As long as fewer than \<open>2 ^ 63\<close> registrations have been made on a new
  registry, the ids the registrations returned are 0, 1, 2, ... in this order: strictly
  increasing as signed 64-bit integers and pairwise distinct. The counter is their number,
  above every key of the map and every id returned; the next registration returns the
  counter as its id, stores its callback under it and leaves every other entry as it
  is. A cancel function deletes the entry of its own id and leaves every other entry as
  it is.
\<close>

theorem watcher_ids_fresh_before_wraparound:
  assumes "run ops (h, NewRegistry) = Some (h', r)"
      and "length (cancel_ids ops (h, NewRegistry)) < 2 ^ 63"
  shows "cancel_ids ops (h, NewRegistry) =
           map word_of_nat [0..<length (cancel_ids ops (h, NewRegistry))] \<and>
         sorted_wrt (\<lambda>a b. sint a < sint b) (cancel_ids ops (h, NewRegistry)) \<and>
         distinct (cancel_ids ops (h, NewRegistry)) \<and>
         watcherCounter r = word_of_nat (length (cancel_ids ops (h, NewRegistry))) \<and>
         (\<forall>k \<in> fst ` set (traceWatchers r) \<union> set (cancel_ids ops (h, NewRegistry)).
            sint k < sint (watcherCounter r)) \<and>
         (\<forall>cb seed. \<exists>r1.
            ObserveTraces cb seed r = Some (watcherCounter r, r1) \<and>
            map_of (traceWatchers r1) (watcherCounter r) = Some cb \<and>
            (\<forall>k. k \<noteq> watcherCounter r \<longrightarrow>
               map_of (traceWatchers r1) k = map_of (traceWatchers r) k)) \<and>
         (\<forall>k seed. \<exists>r1.
            cancel k seed r = Some r1 \<and>
            map_of (traceWatchers r1) k = None \<and>
            (\<forall>k'. k' \<noteq> k \<longrightarrow> map_of (traceWatchers r1) k' = map_of (traceWatchers r) k'))"
proof -
  let ?ids = "cancel_ids ops (h, NewRegistry)"
  define n where "n = length ?ids"
  have c0: "watcherCounter NewRegistry = 0" by (simp add: NewRegistry_def)
  note rc = run_counter [OF assms(1), unfolded c0 add_0, folded n_def]
  have ids: "?ids = map word_of_nat [0..<n]" by (rule rc [THEN conjunct1])
  have cnt: "watcherCounter r = word_of_nat n" by (rule rc [THEN conjunct2])
  from assms(2) have n: "n < 2 ^ 63" by (simp add: n_def)
  have srt: "sorted_wrt (\<lambda>a b. sint a < sint b) ?ids"
    unfolding ids using n by (intro ids_sorted) simp
  have dst: "distinct ?ids" by (rule sorted_sint_distinct [OF srt])
  from run_keys [OF assms(1)] have keys: "fst ` set (traceWatchers r) \<subseteq> set ?ids"
    by (simp add: NewRegistry_def)
  have below: "sint k < sint (watcherCounter r)" if "k \<in> set ?ids" for k
  proof -
    from that obtain i where i: "i < n" "k = word_of_nat i" unfolding ids by auto
    with n show ?thesis by (simp add: cnt sint_word_of_nat_64)
  qed
  from run_inv [OF assms(1) NewRegistry_inv] have m: "\<not> watcherMtx r" by (simp add: unlocked_def)
  have reg: "\<forall>cb seed. \<exists>r1. ObserveTraces cb seed r = Some (watcherCounter r, r1) \<and>
            map_of (traceWatchers r1) (watcherCounter r) = Some cb \<and>
            (\<forall>k. k \<noteq> watcherCounter r \<longrightarrow>
               map_of (traceWatchers r1) k = map_of (traceWatchers r) k)"
    using m by (simp add: ObserveTraces_def Let_def update_conv')
  have can: "\<forall>k seed. \<exists>r1. cancel k seed r = Some r1 \<and>
            map_of (traceWatchers r1) k = None \<and>
            (\<forall>k'. k' \<noteq> k \<longrightarrow> map_of (traceWatchers r1) k' = map_of (traceWatchers r) k')"
    using m by (simp add: cancel_unfold delete_conv')
  from keys below have b: "\<forall>k \<in> fst ` set (traceWatchers r) \<union> set ?ids.
            sint k < sint (watcherCounter r)" by blast
  show ?thesis
    unfolding n_def [symmetric]
    by (intro conjI ids srt dst cnt b reg can)
qed

theorem watcher_ids_fresh_before_wraparound_witness:
  "run ops3 ([], NewRegistry) = Some ([], R3) \<and>
   length (cancel_ids ops3 ([], NewRegistry)) < 2 ^ 63 \<and>
   cancel_ids ops3 ([], NewRegistry) = [0, 1, 2] \<and>
   distinct (cancel_ids ops3 ([], NewRegistry)) \<and>
   watcherCounter R3 = 3 \<and>
   (\<exists>r1. cancel 2 [] R3 = Some r1 \<and> map_of (traceWatchers r1) 2 = None \<and>
      map_of (traceWatchers r1) 0 = map_of (traceWatchers R3) 0)"
proof -
  have r: "run ops3 ([], NewRegistry) = Some ([], R3)"
    by (simp add: ops3_def R3_def NewRegistry_def ObserveTraces_def cancel_def
        updateWatcher_def Let_def)
  have i: "cancel_ids ops3 ([], NewRegistry) = [0, 1, 2]"
    by (simp add: ops3_def NewRegistry_def ObserveTraces_def cancel_def
        updateWatcher_def Let_def)
  have l: "length (cancel_ids ops3 ([], NewRegistry)) < 2 ^ 63" unfolding i by simp
  note t = watcher_ids_fresh_before_wraparound [OF r l]
  have d: "distinct (cancel_ids ops3 ([], NewRegistry))"
    by (rule t [THEN conjunct2, THEN conjunct2, THEN conjunct1])
  have c: "watcherCounter R3 = 3" by (simp add: R3_def)
  have e: "\<exists>r1. cancel 2 [] R3 = Some r1 \<and> map_of (traceWatchers r1) 2 = None \<and>
      map_of (traceWatchers r1) 0 = map_of (traceWatchers R3) 0"
    by (simp add: R3_def cancel_def updateWatcher_def Let_def)
  show ?thesis by (intro conjI r l i d c e)
qed

text \<open>
  Claim C9 as it is stated fails once the 64-bit counter wraps around. In \<open>R_wrap\<close>
  watcher 1 is registered under id 0 and the counter is \<open>2 ^ 64 - 1\<close>. Watcher 2 is given
  that id and the counter is 0 again; watcher 3 is given id 0, which watcher 1 still
  holds, and its callback replaces that of watcher 1 in the map. The cancel function of
  watcher 1 then deletes the callback of watcher 3. In \<open>R_top\<close> the counter is
  \<open>2 ^ 63 - 1\<close>, and the registration that returns this id leaves the counter at
  \<open>- (2 ^ 63)\<close>, below the id.
\<close>

theorem watcher_id_reused_counterexample:
  "map_of (traceWatchers R_wrap) 0 = Some (log_cb 1) \<and>
   cancel_ids [OpObserveTraces (log_cb 2) [], OpObserveTraces (log_cb 3) []] ([], R_wrap) =
     [18446744073709551615, 0] \<and>
   run [OpObserveTraces (log_cb 2) [], OpObserveTraces (log_cb 3) []] ([], R_wrap) =
     Some ([], R_wrap2) \<and>
   map_of (traceWatchers R_wrap2) 0 = Some (log_cb 3) \<and>
   cancel 0 [] R_wrap2 = Some R_wrap3 \<and>
   map_of (traceWatchers R_wrap3) 0 = None \<and>
   observeTrace R_wrap3 7 [] = [(2, 7)] \<and>
   map_option (\<lambda>(k, r). (sint k, sint (watcherCounter r))) (ObserveTraces (log_cb 1) [] R_top) =
     Some (9223372036854775807, - 9223372036854775808)"
  by (simp add: R_wrap_def R_wrap2_def R_wrap3_def R_top_def NewRegistry_def ObserveTraces_def
      cancel_def updateWatcher_def observeTrace_def Let_def log_cb_def)

end
